theory Spec2Isabelle
  imports Complex_Main "HOL-Library.Word"
begin

unbundle bit_operations_syntax

section \<open>Data model of bloomfilter.go\<close>

text \<open>
  Go's \<open>byte\<close> and \<open>uint32\<close> are words of 8 and 32 bits; \<open>+\<close> wraps around,
  \<open>div\<close> and \<open>mod\<close> are the unsigned operations \<open>/\<close> and \<open>%\<close>. Go's \<open>int\<close> is
  modelled by \<open>int\<close>: the only \<open>int\<close> values the code computes with are the
  hash count, slice lengths and the results of \<open>EstimateParameters\<close>.
\<close>

type_synonym byte = "8 word"
type_synonym uint32 = "32 word"

text \<open>
  The struct \<open>BloomFilter\<close>. The field \<open>lock\<close> only serialises concurrent callers
  and is not part of the sequential model.
\<close>

record BloomFilter =
  m :: uint32
  k :: int
  buckets :: "uint32 list"

text \<open>The run-time panics that the statements of the file can raise.\<close>

datatype panic =
    DivideByZero
  | MakeLenOutOfRange
  | IndexOutOfRange
  | SliceBoundsOutOfRange

section \<open>The hash function\<close>

text \<open>\<open>fnv_multiply\<close>, lines 136-138.\<close>

definition fnv_multiply :: "uint32 \<Rightarrow> uint32" where
  "fnv_multiply a =
     a + push_bit 1 a + push_bit 4 a + push_bit 7 a + push_bit 8 a + push_bit 24 a"

text \<open>\<open>fnv_mix\<close>, lines 141-148: five assignments to \<open>a\<close>, then the mask.\<close>

definition fnv_mix :: "uint32 \<Rightarrow> uint32" where
  "fnv_mix a0 =
     (let a1 = a0 + push_bit 13 a0;
          a2 = a1 XOR drop_bit 7 a1;
          a3 = a2 + push_bit 3 a2;
          a4 = a3 XOR drop_bit 17 a3;
          a5 = a4 + push_bit 5 a4
      in a5 AND 0xffffffff)"

text \<open>
  The body of the loop of \<open>fnv_1a\<close>, lines 125-130, for one byte \<open>b\<close>. In Go
  \<open>>>\<close> and \<open>&\<close> bind tighter than \<open>^\<close>, so \<open>a ^ d>>8\<close> is \<open>a XOR (d >> 8)\<close> and
  \<open>a ^ c&0xff\<close> is \<open>a XOR (c AND 0xff)\<close>.
\<close>

definition fnv_step :: "uint32 \<Rightarrow> byte \<Rightarrow> uint32" where
  "fnv_step a b =
     (let c = (ucast b :: uint32);
          d = c AND 0xff00;
          a' = (if d \<noteq> 0 then fnv_multiply (a XOR drop_bit 8 d) else a)
      in fnv_multiply (a' XOR (c AND 0xff)))"

fun fnv_loop :: "uint32 \<Rightarrow> byte list \<Rightarrow> uint32" where
  "fnv_loop a [] = a"
| "fnv_loop a (b # v) = fnv_loop (fnv_step a b) v"

text \<open>
  \<open>fnv_1a\<close>, lines 122-133. The seed is an \<open>int\<close>; the exclusive or is taken on
  \<open>int\<close> and the conversion \<open>uint32(...)\<close> keeps the low 32 bits.
\<close>

definition fnv_1a :: "byte list \<Rightarrow> int \<Rightarrow> uint32" where
  "fnv_1a v seed = fnv_mix (fnv_loop (word_of_int (2166136261 XOR seed)) v)"

text \<open>
  The hash function as the specification allows it to be simplified: the
  branch on \<open>d \<noteq> 0\<close> is removed, the rest is as in the specification's steps
  1, 2c and 3.
\<close>

definition fnv_step_simplified :: "uint32 \<Rightarrow> byte \<Rightarrow> uint32" where
  "fnv_step_simplified a b = fnv_multiply (a XOR ((ucast b :: uint32) AND 0xff))"

fun fnv_loop_simplified :: "uint32 \<Rightarrow> byte list \<Rightarrow> uint32" where
  "fnv_loop_simplified a [] = a"
| "fnv_loop_simplified a (b # v) = fnv_loop_simplified (fnv_step_simplified a b) v"

definition fnv_1a_simplified :: "byte list \<Rightarrow> int \<Rightarrow> uint32" where
  "fnv_1a_simplified v seed =
     fnv_mix (fnv_loop_simplified (word_of_int (2166136261 XOR seed)) v)"

section \<open>Constructors\<close>

text \<open>
  \<open>New\<close>, lines 19-26. The word count is \<open>uint32(math.Ceil(float64(m) / 32))\<close>.
  For \<open>\<bar>m\<bar> \<le> 2^53\<close> the conversion to \<open>float64\<close>, the division by the power
  of two 32 and \<open>math.Ceil\<close> are all exact, so the floating-point value is the
  integer \<open>\<lceil>m / 32\<rceil>\<close>, which is \<open>- ((- m) div 32)\<close>. When that value is not
  representable in \<open>uint32\<close> (and for every \<open>\<bar>m\<bar> > 2^53\<close> it is not), Go leaves the
  result of the conversion to the implementation: the model takes it from the
  parameter \<open>u\<close>, the word that the implementation yields for this argument.
  \<open>make\<close> returns zeroed words.
\<close>

definition ceil_div32 :: "int \<Rightarrow> int" where
  "ceil_div32 x = - ((- x) div 32)"

definition word_count :: "uint32 \<Rightarrow> int \<Rightarrow> uint32" where
  "word_count u x =
     (let c = ceil_div32 x
      in if 0 \<le> c \<and> c < 2 ^ 32 then word_of_int c else u)"

definition New :: "uint32 \<Rightarrow> int \<Rightarrow> int \<Rightarrow> BloomFilter" where
  "New u m0 k0 =
     (let n = word_count u m0
      in \<lparr> m = n * 32, k = k0, buckets = replicate (unat n) 0 \<rparr>)"

text \<open>
  A slice expression \<open>s[lo:hi]\<close> panics unless \<open>lo \<le> hi \<le> len s\<close> (the slices of
  this file have no spare capacity that the expression could reach).
\<close>

definition slice :: "'a list \<Rightarrow> nat \<Rightarrow> nat \<Rightarrow> panic + 'a list" where
  "slice s lo hi =
     (if lo \<le> hi \<and> hi \<le> length s then Inr (take (hi - lo) (drop lo s))
      else Inl SliceBoundsOutOfRange)"

text \<open>
  \<open>binary.BigEndian.Uint32\<close> and \<open>binary.BigEndian.PutUint32\<close> of the standard
  library: the first reads \<open>b[0..3]\<close> and panics on a shorter slice.
\<close>

fun BigEndian_Uint32 :: "byte list \<Rightarrow> panic + uint32" where
  "BigEndian_Uint32 (b0 # b1 # b2 # b3 # _) =
     Inr (ucast b3 OR push_bit 8 (ucast b2) OR push_bit 16 (ucast b1)
          OR push_bit 24 (ucast b0))"
| "BigEndian_Uint32 _ = Inl IndexOutOfRange"

definition BigEndian_PutUint32 :: "uint32 \<Rightarrow> byte list" where
  "BigEndian_PutUint32 w =
     [ucast (drop_bit 24 w), ucast (drop_bit 16 w), ucast (drop_bit 8 w), ucast w]"

text \<open>
  The loop of \<open>NewFromBytes\<close>, lines 33-35, from index \<open>i\<close> for \<open>n\<close> more
  iterations; it returns the words it stored.
\<close>

fun read_words :: "byte list \<Rightarrow> nat \<Rightarrow> nat \<Rightarrow> panic + uint32 list" where
  "read_words bb i 0 = Inr []"
| "read_words bb i (Suc n) =
     (case slice bb (i * 4) ((i + 1) * 4) of
        Inl e \<Rightarrow> Inl e
      | Inr s \<Rightarrow>
          (case BigEndian_Uint32 s of
             Inl e \<Rightarrow> Inl e
           | Inr w \<Rightarrow>
               (case read_words bb (i + 1) n of
                  Inl e \<Rightarrow> Inl e
                | Inr ws \<Rightarrow> Inr (w # ws))))"

text \<open>
  \<open>NewFromBytes\<close>, lines 31-41. \<open>len(bb)/4\<close> is integer division;
  \<open>uint32(len(ii) * 32)\<close> keeps the low 32 bits of the product.
\<close>

definition NewFromBytes :: "byte list \<Rightarrow> int \<Rightarrow> panic + BloomFilter" where
  "NewFromBytes bb k0 =
     (case read_words bb 0 (length bb div 4) of
        Inl e \<Rightarrow> Inl e
      | Inr ii \<Rightarrow> Inr \<lparr> m = of_nat (length ii * 32), k = k0, buckets = ii \<rparr>)"

section \<open>Estimating the parameters\<close>



section \<open>Positions, Add, Test, ToBytes\<close>

text \<open>The loop of \<open>locations\<close>, lines 59-62, for \<open>n\<close> iterations.\<close>

fun locations_loop :: "nat \<Rightarrow> uint32 \<Rightarrow> uint32 \<Rightarrow> uint32 \<Rightarrow> uint32 list" where
  "locations_loop 0 x b mm = []"
| "locations_loop (Suc n) x b mm = x # locations_loop n ((x + b) mod mm) b mm"

text \<open>
  \<open>locations\<close>, lines 54-64. \<open>make\<close> panics on a negative length, and \<open>%\<close> on a
  zero divisor; \<open>make\<close> comes first. The limits of the allocator on the length
  of a slice are not part of the model.
\<close>

definition locations :: "BloomFilter \<Rightarrow> byte list \<Rightarrow> panic + uint32 list" where
  "locations bf v =
     (if k bf < 0 then Inl MakeLenOutOfRange
      else
        let a = fnv_1a v 0;
            b = fnv_1a v 1576284489
        in if m bf = 0 then Inl DivideByZero
           else Inr (locations_loop (nat (k bf)) (a mod m bf) b (m bf)))"

text \<open>
  The loop of \<open>Add\<close>, lines 71-73, on the word sequence. An index beyond the
  sequence panics; the words written before the panic stay written, so the
  result is the word sequence together with the panic, if any.
\<close>

fun set_bits :: "uint32 list \<Rightarrow> uint32 list \<Rightarrow> uint32 list \<times> panic option" where
  "set_bits bs [] = (bs, None)"
| "set_bits bs (l # ls) =
     (let i = unat (l div 32)
      in if i < length bs
         then set_bits (bs[i := bs ! i OR push_bit (unat (l mod 32)) 1]) ls
         else (bs, Some IndexOutOfRange))"

text \<open>
  \<open>Add\<close>, lines 67-74: the filter after the call, and the panic that ended the
  call, if any.
\<close>

definition Add :: "BloomFilter \<Rightarrow> byte list \<Rightarrow> BloomFilter \<times> panic option" where
  "Add bf v =
     (case locations bf v of
        Inl e \<Rightarrow> (bf, Some e)
      | Inr loc \<Rightarrow>
          (case set_bits (buckets bf) loc of
             (bs, e) \<Rightarrow> (bf\<lparr>buckets := bs\<rparr>, e)))"


text \<open>The loop of \<open>Test\<close>, lines 88-93.\<close>

fun test_bits :: "uint32 list \<Rightarrow> uint32 list \<Rightarrow> panic + bool" where
  "test_bits bs [] = Inr True"
| "test_bits bs (l # ls) =
     (let i = unat (l div 32)
      in if i < length bs
         then (if bs ! i AND push_bit (unat (l mod 32)) 1 = 0 then Inr False
               else test_bits bs ls)
         else Inl IndexOutOfRange)"

text \<open>\<open>Test\<close>, lines 84-94.\<close>

definition Test :: "BloomFilter \<Rightarrow> byte list \<Rightarrow> panic + bool" where
  "Test bf v =
     (case locations bf v of
        Inl e \<Rightarrow> Inl e
      | Inr loc \<Rightarrow> test_bits (buckets bf) loc)"

text \<open>
  \<open>AddInt\<close> and \<open>TestInt\<close>, lines 77-81 and 97-103: \<open>uint32(v)\<close> keeps the low
  32 bits of the integer, and its four bytes, the most significant first, go
  to \<open>Add\<close> and \<open>Test\<close>.
\<close>

definition AddInt :: "BloomFilter \<Rightarrow> int \<Rightarrow> BloomFilter \<times> panic option" where
  "AddInt bf v = Add bf (BigEndian_PutUint32 (word_of_int v))"

definition TestInt :: "BloomFilter \<Rightarrow> int \<Rightarrow> panic + bool" where
  "TestInt bf v = Test bf (BigEndian_PutUint32 (word_of_int v))"

text \<open>\<open>ToBytes\<close>, lines 106-116: four bytes are appended for every word.\<close>

fun ToBytes_loop :: "byte list \<Rightarrow> uint32 list \<Rightarrow> byte list" where
  "ToBytes_loop bb [] = bb"
| "ToBytes_loop bb (bucket # bs) = ToBytes_loop (bb @ BigEndian_PutUint32 bucket) bs"

definition ToBytes :: "BloomFilter \<Rightarrow> byte list" where
  "ToBytes bf = ToBytes_loop [] (buckets bf)"

section \<open>The filters a program can hold\<close>

text \<open>
  The fields of \<open>BloomFilter\<close> are not exported: a filter comes from one of the
  two constructors, or is the zero value of the struct, and only \<open>Add\<close> (and
  \<open>AddInt\<close>, which calls it) changes it.
\<close>

inductive reachable :: "BloomFilter \<Rightarrow> bool" where
  reachable_New: "reachable (New u m0 k0)"
| reachable_NewFromBytes: "NewFromBytes bb k0 = Inr bf \<Longrightarrow> reachable bf"
| reachable_zero: "reachable \<lparr> m = 0, k = 0, buckets = [] \<rparr>"
| reachable_Add: "reachable bf \<Longrightarrow> reachable (fst (Add bf v))"

section \<open>Notions of the specification\<close>

text \<open>
  The positions as the specification writes them, over the natural numbers:
  \<open>x\<^sub>0 = hashA mod m\<close> and \<open>x\<^sub>i\<^sub>+\<^sub>1 = (x\<^sub>i + hashB) mod m\<close>; \<open>spec_positions\<close> starts
  from \<open>x\<close> and emits \<open>n\<close> positions.
\<close>

fun spec_positions :: "nat \<Rightarrow> nat \<Rightarrow> nat \<Rightarrow> nat \<Rightarrow> nat list" where
  "spec_positions 0 x hb mm = []"
| "spec_positions (Suc n) x hb mm = x # spec_positions n ((x + hb) mod mm) hb mm"

definition spec_locations :: "BloomFilter \<Rightarrow> byte list \<Rightarrow> nat list" where
  "spec_locations bf v =
     (let hashA = unat (fnv_1a v 0);
          hashB = unat (fnv_1a v 1576284489);
          mm = unat (m bf)
      in spec_positions (nat (k bf)) (hashA mod mm) hashB mm)"

text \<open>The same sequence with the sum reduced modulo \<open>2^32\<close> first.\<close>

fun wrap_positions :: "nat \<Rightarrow> nat \<Rightarrow> nat \<Rightarrow> nat \<Rightarrow> nat list" where
  "wrap_positions 0 x hb mm = []"
| "wrap_positions (Suc n) x hb mm =
     x # wrap_positions n (((x + hb) mod 2 ^ 32) mod mm) hb mm"

definition wrap_locations :: "BloomFilter \<Rightarrow> byte list \<Rightarrow> nat list" where
  "wrap_locations bf v =
     (let hashA = unat (fnv_1a v 0);
          hashB = unat (fnv_1a v 1576284489);
          mm = unat (m bf)
      in wrap_positions (nat (k bf)) (hashA mod mm) hashB mm)"

text \<open>
  Bit \<open>l\<close> of a word sequence: bit \<open>l mod 32\<close> of word \<open>l / 32\<close>, false beyond
  the sequence.
\<close>

definition bit_is_set :: "uint32 list \<Rightarrow> uint32 \<Rightarrow> bool" where
  "bit_is_set bs l =
     (unat (l div 32) < length bs \<and> bit (bs ! unat (l div 32)) (unat (l mod 32)))"

text \<open>
  The invariant of the specification's data model: the bit count is a positive
  multiple of 32, and it is the number of words times 32.
\<close>

definition bit_count_ok :: "BloomFilter \<Rightarrow> bool" where
  "bit_count_ok bf =
     (0 < unat (m bf) \<and> unat (m bf) mod 32 = 0
      \<and> unat (m bf) = length (buckets bf) * 32)"

text \<open>
  What the constructors establish for all their arguments: the bit count is
  the number of words times 32, reduced modulo \<open>2^32\<close>.
\<close>

definition bit_count_wrapped :: "BloomFilter \<Rightarrow> bool" where
  "bit_count_wrapped bf = (unat (m bf) = (length (buckets bf) * 32) mod 2 ^ 32)"

section \<open>Words and bits\<close>

lemma bit_ff00: "bit (0xff00 :: uint32) n \<Longrightarrow> 8 \<le> n"
proof -
  have e: "(0xff00 :: uint32) = push_bit 8 0xff" by simp
  show "bit (0xff00 :: uint32) n \<Longrightarrow> 8 \<le> n"
    unfolding e by (simp only: bit_push_bit_iff)
qed

lemma ucast_byte_high: "(ucast (b :: byte) :: uint32) AND 0xff00 = 0"
proof (rule bit_word_eqI)
  fix n assume "n < LENGTH(32)"
  have "\<not> (bit (ucast b :: uint32) n \<and> bit (0xff00 :: uint32) n)"
  proof
    assume h: "bit (ucast b :: uint32) n \<and> bit (0xff00 :: uint32) n"
    then have "n < 8" by (auto simp: bit_simps dest: bit_imp_le_length)
    moreover from h have "8 \<le> n" by (blast dest: bit_ff00)
    ultimately show False by simp
  qed
  then show "bit (ucast b AND (0xff00 :: uint32)) n = bit (0 :: uint32) n"
    by (simp add: bit_and_iff)
qed

lemma Uint32_PutUint32: "BigEndian_Uint32 (BigEndian_PutUint32 w) = Inr w"
proof -
  have "ucast (ucast w :: byte) OR push_bit 8 (ucast (ucast (drop_bit 8 w) :: byte))
        OR push_bit 16 (ucast (ucast (drop_bit 16 w) :: byte))
        OR push_bit 24 (ucast (ucast (drop_bit 24 w) :: byte)) = w" (is "?lhs = w")
  proof (rule bit_word_eqI)
    fix n assume n: "n < LENGTH(32)"
    consider "n < 8" | "8 \<le> n" "n < 16" | "16 \<le> n" "n < 24" | "24 \<le> n"
      by linarith
    then show "bit ?lhs n = bit w n"
      using n by cases (auto simp: bit_simps)
  qed
  then show ?thesis
    by (simp add: BigEndian_PutUint32_def)
qed




lemma or_word_id: "bit (w :: uint32) j \<Longrightarrow> w OR 2 ^ j = w"
  by (rule bit_word_eqI) (auto simp: bit_simps)

lemma bit_or_word: "bit ((w :: uint32) OR 2 ^ j) n = (bit w n \<or> (n = j \<and> j < 32))"
  by (auto simp: bit_simps)

lemma unat_mod32: "unat ((l :: uint32) mod 32) < 32"
  by (simp add: unat_mod)

lemma set_bits_length: "set_bits bs ls = (bs', e) \<Longrightarrow> length bs' = length bs"
  by (induction bs ls arbitrary: bs' e rule: set_bits.induct)
     (auto simp: Let_def split: if_splits)

lemma set_bits_mono:
  "set_bits bs ls = (bs', e) \<Longrightarrow> i < length bs \<Longrightarrow> bit (bs ! i) n \<Longrightarrow> bit (bs' ! i) n"
proof (induction bs ls arbitrary: bs' e rule: set_bits.induct)
  case (1 bs)
  then show ?case by simp
next
  case (2 bs l ls)
  show ?case
  proof (cases "unat (l div 32) < length bs")
    case True
    let ?bs1 = "bs[unat (l div 32) := bs ! unat (l div 32) OR push_bit (unat (l mod 32)) 1]"
    have s: "set_bits ?bs1 ls = (bs', e)" using "2.prems"(1) True by (simp add: Let_def)
    have "bit (?bs1 ! i) n"
      using "2.prems"(2,3) by (cases "i = unat (l div 32)") (auto simp: bit_or_word)
    with "2.IH" [OF refl True s] "2.prems"(2) show ?thesis by simp
  next
    case False
    with "2.prems" show ?thesis by simp
  qed
qed

lemma bit_is_set_mono:
  "set_bits bs ls = (bs', e) \<Longrightarrow> bit_is_set bs l \<Longrightarrow> bit_is_set bs' l"
  by (auto simp: bit_is_set_def set_bits_length dest: set_bits_mono)


lemma set_bits_id:
  "\<forall>l \<in> set ls. bit_is_set bs l \<Longrightarrow> set_bits bs ls = (bs, None)"
  by (induction ls) (auto simp: bit_is_set_def or_word_id Let_def)

lemma set_bits_idem: "set_bits bs ls = (bs', e) \<Longrightarrow> set_bits bs' ls = (bs', e)"
proof (induction bs ls arbitrary: bs' e rule: set_bits.induct)
  case (1 bs)
  then show ?case by simp
next
  case (2 bs l ls)
  show ?case
  proof (cases "unat (l div 32) < length bs")
    case True
    let ?bs1 = "bs[unat (l div 32) := bs ! unat (l div 32) OR push_bit (unat (l mod 32)) 1]"
    have s: "set_bits ?bs1 ls = (bs', e)" using "2.prems"(1) True by (simp add: Let_def)
    have "bit_is_set ?bs1 l"
      using True by (simp add: bit_is_set_def bit_or_word unat_mod32)
    with s have b: "bit_is_set bs' l" by (rule bit_is_set_mono)
    then have "bs'[unat (l div 32) := bs' ! unat (l div 32) OR 2 ^ unat (l mod 32)] = bs'"
      by (simp add: bit_is_set_def or_word_id)
    with b "2.IH" [OF refl True s] show ?thesis by (simp add: bit_is_set_def)
  next
    case False
    with "2.prems" show ?thesis by auto
  qed
qed


section \<open>Constructors and serialisation\<close>

lemma ceil_div32_bounds: "x \<le> 32 * ceil_div32 x \<and> 32 * ceil_div32 x < x + 32"
  unfolding ceil_div32_def by presburger

lemma New_sel:
  "m (New u m0 k0) = word_count u m0 * 32"
  "k (New u m0 k0) = k0"
  "buckets (New u m0 k0) = replicate (unat (word_count u m0)) 0"
  by (simp_all add: New_def Let_def)

lemma wrapped_New: "bit_count_wrapped (New u m0 k0)"
  by (simp add: bit_count_wrapped_def New_sel unat_word_ariths)

lemma word_count_in_range:
  assumes "0 \<le> m0" "m0 \<le> 4294967264"
  shows "int (unat (word_count u m0)) = ceil_div32 m0" and "ceil_div32 m0 < 134217728"
proof -
  from ceil_div32_bounds [of m0] assms
  have b: "0 \<le> ceil_div32 m0" "ceil_div32 m0 < 134217728" by linarith+
  then have "word_count u m0 = word_of_int (ceil_div32 m0)"
    by (simp add: word_count_def)
  moreover have "uint (word_of_int (ceil_div32 m0) :: uint32) = ceil_div32 m0"
    using b by (simp add: uint_word_of_int)
  ultimately show "int (unat (word_count u m0)) = ceil_div32 m0" by simp
  show "ceil_div32 m0 < 134217728" by (rule b)
qed

lemma list4: "length s = 4 \<Longrightarrow> \<exists>a b c d. s = [a, b, c, d]"
  by (auto simp: eval_nat_numeral length_Suc_conv)

lemma PutUint32_Uint32:
  "BigEndian_PutUint32 (ucast (d :: byte) OR push_bit 8 (ucast (c :: byte))
     OR push_bit 16 (ucast (b :: byte)) OR push_bit 24 (ucast (a :: byte))) = [a, b, c, d]"
  (is "BigEndian_PutUint32 ?w = _")
proof -
  have "ucast (drop_bit 24 ?w) = a"
    by (rule bit_word_eqI) (auto simp: bit_simps dest: bit_imp_le_length)
  moreover have "ucast (drop_bit 16 ?w) = b"
    by (rule bit_word_eqI) (auto simp: bit_simps dest: bit_imp_le_length)
  moreover have "ucast (drop_bit 8 ?w) = c"
    by (rule bit_word_eqI) (auto simp: bit_simps dest: bit_imp_le_length)
  moreover have "ucast ?w = d"
    by (rule bit_word_eqI) (auto simp: bit_simps dest: bit_imp_le_length)
  ultimately show ?thesis by (simp only: BigEndian_PutUint32_def)
qed

lemma length_PutUint32: "length (BigEndian_PutUint32 w) = 4"
  by (simp add: BigEndian_PutUint32_def)

lemma read_words_total:
  "(i + n) * 4 \<le> length bb \<Longrightarrow>
   \<exists>ws. read_words bb i n = Inr ws \<and> length ws = n
      \<and> concat (map BigEndian_PutUint32 ws) = take (4 * n) (drop (4 * i) bb)"
proof (induction n arbitrary: i)
  case 0
  then show ?case by simp
next
  case (Suc n)
  let ?s = "take 4 (drop (i * 4) bb)"
  from Suc.prems have sl: "slice bb (i * 4) ((i + 1) * 4) = Inr ?s"
    by (simp add: slice_def)
  from Suc.prems have "length ?s = 4" by simp
  then obtain a b c d where s: "?s = [a, b, c, d]" by (blast dest: list4)
  let ?w = "ucast d OR push_bit 8 (ucast c) OR push_bit 16 (ucast b) OR push_bit 24 (ucast a) :: uint32"
  have w: "BigEndian_Uint32 ?s = Inr ?w" by (simp only: s BigEndian_Uint32.simps)
  from Suc.prems have "(i + 1 + n) * 4 \<le> length bb" by simp
  from Suc.IH [OF this] obtain ws where ws: "read_words bb (i + 1) n = Inr ws"
    "length ws = n"
    "concat (map BigEndian_PutUint32 ws) = take (4 * n) (drop (4 * (i + 1)) bb)"
    by blast
  have r: "read_words bb i (Suc n) = Inr (?w # ws)"
    by (simp only: read_words.simps sl w ws sum.case)
  have "take (4 * Suc n) (drop (4 * i) bb)
        = take 4 (drop (4 * i) bb) @ take (4 * n) (drop 4 (drop (4 * i) bb))"
    by (simp add: take_add)
  also have "\<dots> = [a, b, c, d] @ take (4 * n) (drop (4 * (i + 1)) bb)"
    using s by (simp add: mult.commute add.commute)
  finally have "concat (map BigEndian_PutUint32 (?w # ws)) = take (4 * Suc n) (drop (4 * i) bb)"
    using ws(3) PutUint32_Uint32 [of d c b a] by simp
  with r ws(2) show ?case by simp
qed

lemma NewFromBytes_total:
  "\<exists>ws. NewFromBytes bb k0 = Inr \<lparr> m = of_nat (length ws * 32), k = k0, buckets = ws \<rparr>
      \<and> length ws = length bb div 4
      \<and> concat (map BigEndian_PutUint32 ws) = take (4 * (length bb div 4)) bb"
proof -
  have "(0 + length bb div 4) * 4 \<le> length bb" by simp
  from read_words_total [OF this] show ?thesis
    by (auto simp: NewFromBytes_def)
qed

lemma ToBytes_loop_concat: "ToBytes_loop bb bs = bb @ concat (map BigEndian_PutUint32 bs)"
  by (induction bs arbitrary: bb) simp_all

lemma ToBytes_concat: "ToBytes bf = concat (map BigEndian_PutUint32 (buckets bf))"
  by (simp add: ToBytes_def ToBytes_loop_concat)

lemma length_concat_Put: "length (concat (map BigEndian_PutUint32 bs)) = 4 * length bs"
  by (induction bs) (simp_all add: length_PutUint32)

lemma length_ToBytes: "length (ToBytes bf) = 4 * length (buckets bf)"
  by (simp add: ToBytes_concat length_concat_Put)

lemma read_words_encode:
  "length pre = 4 * i \<Longrightarrow>
   read_words (pre @ concat (map BigEndian_PutUint32 ws)) i (length ws) = Inr ws"
proof (induction ws arbitrary: pre i)
  case Nil
  then show ?case by simp
next
  case (Cons w ws)
  let ?bb = "pre @ concat (map BigEndian_PutUint32 (w # ws))"
  have sl: "slice ?bb (i * 4) ((i + 1) * 4) = Inr (BigEndian_PutUint32 w)"
    using Cons.prems by (simp add: slice_def length_PutUint32 length_concat_Put)
  have "length (pre @ BigEndian_PutUint32 w) = 4 * (i + 1)"
    using Cons.prems by (simp add: length_PutUint32)
  from Cons.IH [OF this]
  have rw: "read_words ?bb (i + 1) (length ws) = Inr ws" by simp
  have "read_words ?bb i (Suc (length ws)) = Inr (w # ws)"
    by (simp only: read_words.simps sl Uint32_PutUint32 rw sum.case)
  then show ?case by simp
qed

section \<open>Positions, Add and Test on a filter\<close>

lemma locations_loop_length: "length (locations_loop n x b mm) = n"
  by (induction n arbitrary: x) simp_all

lemma locations_loop_bound:
  "mm \<noteq> 0 \<Longrightarrow> x < mm \<Longrightarrow> l \<in> set (locations_loop n x b mm) \<Longrightarrow> l < mm"
proof (induction n arbitrary: x)
  case 0
  then show ?case by simp
next
  case (Suc n)
  from Suc.prems(1) have "(x + b) mod mm < mm"
    by (simp add: word_mod_less_divisor word_neq_0_conv)
  with Suc show ?case by auto
qed

lemma locations_Inr:
  "0 \<le> k bf \<Longrightarrow> m bf \<noteq> 0 \<Longrightarrow>
   locations bf v =
     Inr (locations_loop (nat (k bf)) (fnv_1a v 0 mod m bf) (fnv_1a v 1576284489) (m bf))"
  by (simp add: locations_def)

lemma locations_bound:
  assumes "locations bf v = Inr ls" "l \<in> set ls"
  shows "l < m bf"
proof -
  from assms(1) have z: "m bf \<noteq> 0" and k: "0 \<le> k bf"
    by (auto simp: locations_def Let_def split: if_splits)
  then have "fnv_1a v 0 mod m bf < m bf"
    by (simp add: word_mod_less_divisor word_neq_0_conv)
  with assms z k show ?thesis
    by (auto simp: locations_Inr dest: locations_loop_bound)
qed

lemma locations_fields:
  "m bf' = m bf \<Longrightarrow> k bf' = k bf \<Longrightarrow> locations bf' v = locations bf v"
  by (simp add: locations_def)



lemma Add_sel:
  "m (fst (Add bf v)) = m bf"
  "k (fst (Add bf v)) = k bf"
  "length (buckets (fst (Add bf v))) = length (buckets bf)"
  by (auto simp: Add_def split: sum.splits prod.splits dest: set_bits_length)

lemma wrapped_Add: "bit_count_wrapped bf \<Longrightarrow> bit_count_wrapped (fst (Add bf v))"
  by (simp add: bit_count_wrapped_def Add_sel)

lemma unat_of_nat_32: "unat (word_of_nat n * 32 :: uint32) = n * 32 mod 4294967296"
  by (simp add: unat_word_ariths unat_of_nat mod_mult_left_eq)

lemma wrapped_NewFromBytes: "NewFromBytes bb k0 = Inr bf \<Longrightarrow> bit_count_wrapped bf"
  using NewFromBytes_total [of bb k0]
  by (auto simp: bit_count_wrapped_def unat_of_nat_32)

lemma reachable_wrapped: "reachable bf \<Longrightarrow> bit_count_wrapped bf"
proof (induction rule: reachable.induct)
  case (reachable_New u m0 k0)
  show ?case by (rule wrapped_New)
next
  case (reachable_NewFromBytes bb k0 bf)
  then show ?case by (rule wrapped_NewFromBytes)
next
  case reachable_zero
  show ?case by (simp add: bit_count_wrapped_def)
next
  case (reachable_Add bf v)
  then show ?case by (simp add: wrapped_Add)
qed


lemma Add_bit_mono:
  "i < length (buckets bf) \<Longrightarrow> bit (buckets bf ! i) n \<Longrightarrow> bit (buckets (fst (Add bf v)) ! i) n"
  by (auto simp: Add_def split: sum.splits prod.splits dest: set_bits_mono)

lemma Add_Inr:
  "locations bf v = Inr ls \<Longrightarrow>
   Add bf v = (bf\<lparr>buckets := fst (set_bits (buckets bf) ls)\<rparr>, snd (set_bits (buckets bf) ls))"
  by (simp add: Add_def split: prod.splits)



lemma Add_idem: "Add (fst (Add bf v)) v = Add bf v"
proof (cases "locations bf v")
  case (Inl e)
  then show ?thesis by (simp add: Add_def)
next
  case (Inr ls)
  obtain bs e where s: "set_bits (buckets bf) ls = (bs, e)" by (cases "set_bits (buckets bf) ls")
  then have a: "Add bf v = (bf\<lparr>buckets := bs\<rparr>, e)" using Inr by (simp add: Add_Inr)
  have "locations (bf\<lparr>buckets := bs\<rparr>) v = Inr ls"
    using Inr locations_fields [of "bf\<lparr>buckets := bs\<rparr>" bf v] by simp
  moreover from s have "set_bits bs ls = (bs, e)" by (rule set_bits_idem)
  ultimately have "Add (bf\<lparr>buckets := bs\<rparr>) v = (bf\<lparr>buckets := bs\<rparr>, e)"
    by (simp add: Add_Inr)
  with a show ?thesis by simp
qed






section \<open>No false negatives, and the round trip through bytes\<close>

lemma NewFromBytes_encode:
  "NewFromBytes (concat (map BigEndian_PutUint32 ws)) k0 =
     Inr \<lparr> m = of_nat (length ws * 32), k = k0, buckets = ws \<rparr>"
proof -
  have "read_words ([] @ concat (map BigEndian_PutUint32 ws)) 0 (length ws) = Inr ws"
    by (rule read_words_encode) simp
  then show ?thesis
    by (simp add: NewFromBytes_def length_concat_Put)
qed

lemma wrapped_m: "bit_count_wrapped bf \<Longrightarrow> m bf = of_nat (length (buckets bf) * 32)"
  by (simp add: word_unat_eq_iff unat_of_nat_32 bit_count_wrapped_def)

lemma round_trip:
  assumes "bit_count_wrapped bf"
  shows "NewFromBytes (ToBytes bf) (k bf) = Inr bf"
proof -
  have "\<lparr> m = of_nat (length (buckets bf) * 32), k = k bf, buckets = buckets bf \<rparr>
        = \<lparr> m = m bf, k = k bf, buckets = buckets bf \<rparr>"
    by (simp only: wrapped_m [OF assms, symmetric])
  also have "\<dots> = bf" by simp
  finally show ?thesis by (simp only: ToBytes_concat NewFromBytes_encode)
qed

lemma replicate_unat_2: "replicate (unat (2 :: uint32)) x = [x, x]"
proof -
  have "unat (2 :: uint32) = 2" by simp
  then show ?thesis by (simp add: numeral_2_eq_2)
qed

lemma New_33: "New u 33 3 = \<lparr> m = 64, k = 3, buckets = [0, 0] \<rparr>"
proof -
  have "word_count u 33 = 2" by (simp add: word_count_def ceil_div32_def)
  then have "New u 33 3 = \<lparr> m = 2 * 32, k = 3, buckets = [0, 0] \<rparr>"
    by (simp only: New_def Let_def replicate_unat_2)
  then show ?thesis by simp
qed



text \<open>
  Claim C2. For a filter \<open>bf\<close> that a program holds, \<open>NewFromBytes\<close> applied to
  \<open>ToBytes bf\<close> and the hash count of \<open>bf\<close> does not panic and returns a filter
  with the same fields as \<open>bf\<close>; so \<open>Test\<close> answers alike on both, for every
  value.
\<close>

theorem serialization_round_trip:
  assumes "reachable bf"
  shows "\<exists>bf'. NewFromBytes (ToBytes bf) (k bf) = Inr bf' \<and> bf' = bf
           \<and> (\<forall>v. Test bf' v = Test bf v)"
  using assms by (simp add: round_trip reachable_wrapped)

theorem serialization_round_trip_witness:
  "reachable (fst (Add (New 0 33 3) [1, 2, 3]))
   \<and> (\<exists>bf'. NewFromBytes (ToBytes (fst (Add (New 0 33 3) [1, 2, 3])))
              (k (fst (Add (New 0 33 3) [1, 2, 3]))) = Inr bf'
         \<and> bf' = fst (Add (New 0 33 3) [1, 2, 3])
         \<and> (\<forall>v. Test bf' v = Test (fst (Add (New 0 33 3) [1, 2, 3])) v))"
proof -
  have r: "reachable (fst (Add (New 0 33 3) [1, 2, 3]))"
    by (rule reachable_Add) (rule reachable_New)
  from serialization_round_trip [OF r] r show ?thesis by blast
qed

section \<open>Bit counts of the constructors\<close>

lemma New_in_range:
  assumes "1 \<le> m0" "m0 \<le> 4294967264"
  shows "bit_count_ok (New u m0 k0)"
proof -
  let ?n = "unat (word_count u m0)"
  from assms have r: "0 \<le> m0" by simp
  have n: "int ?n = ceil_div32 m0" and u: "ceil_div32 m0 < 134217728"
    using word_count_in_range [OF r assms(2)] by simp_all
  from ceil_div32_bounds [of m0] assms(1) have "0 < ceil_div32 m0" by linarith
  with n u have b: "0 < ?n" "?n < 134217728" by linarith+
  then have "unat (word_count u m0 * 32) = ?n * 32"
    by (simp add: unat_word_ariths)
  with b show ?thesis by (simp add: bit_count_ok_def New_sel)
qed

lemma NewFromBytes_in_range:
  assumes "4 \<le> length bb" "length bb < 536870912"
  shows "\<exists>bf. NewFromBytes bb k0 = Inr bf \<and> bit_count_ok bf"
proof -
  from NewFromBytes_total [of bb k0] obtain ws where
    ws: "NewFromBytes bb k0 = Inr \<lparr> m = of_nat (length ws * 32), k = k0, buckets = ws \<rparr>"
        "length ws = length bb div 4"
    by blast
  from assms ws(2) have b: "0 < length ws" "length ws < 134217728" by simp_all
  then have "unat (word_of_nat (length ws) * 32 :: uint32) = length ws * 32"
    by (simp add: unat_of_nat_32)
  with b have "bit_count_ok \<lparr> m = of_nat (length ws * 32), k = k0, buckets = ws \<rparr>"
    by (simp add: bit_count_ok_def)
  with ws(1) show ?thesis by blast
qed

lemma wrapped_mod32: "bit_count_wrapped bf \<Longrightarrow> unat (m bf) mod 32 = 0"
proof -
  assume "bit_count_wrapped bf"
  then have "unat (m bf) = (length (buckets bf) * 32) mod (32 * 134217728)"
    by (simp add: bit_count_wrapped_def)
  also have "\<dots> = 32 * (length (buckets bf) mod 134217728)"
    by (simp add: mult.commute [of _ 32] mult_mod_right)
  finally show ?thesis by simp
qed

lemma New_0: "New u 0 k0 = \<lparr> m = 0, k = k0, buckets = [] \<rparr>"
  by (simp add: New_def word_count_def ceil_div32_def)

lemma New_big:
  "m (New u 4294967296 k0) = 0" "length (buckets (New u 4294967296 k0)) = 134217728"
  by (simp_all add: New_sel word_count_def ceil_div32_def)

section \<open>Sizes, idempotence and truncation\<close>

lemma Add_123: "fst (Add (New 0 33 3) [1, 2, 3]) = \<lparr> m = 64, k = 3, buckets = [4194432, 16777216] \<rparr>"
  by code_simp

text \<open>
  Claim C3, as stated: the length of \<open>ToBytes\<close> is the bit count divided by 4,
  for every filter. \<open>New(32, 1)\<close> has one word and bit count 32: \<open>ToBytes\<close>
  returns 4 bytes, and the bit count divided by 4 is 8. (A byte holds 8 bits:
  the length is the bit count divided by 8. Even that fails once the bit
  count has wrapped around: \<open>New(4294967296, 1)\<close> has \<open>2^27\<close> words and bit
  count 0, and \<open>ToBytes\<close> returns \<open>2^29\<close> bytes.)
\<close>

theorem ToBytes_length_counterexample:
  "length (ToBytes (New 0 32 1)) = 4 \<and> unat (m (New 0 32 1)) div 4 = 8
   \<and> length (ToBytes (New 0 4294967296 1)) = 536870912
   \<and> unat (m (New 0 4294967296 1)) div 8 = 0"
proof -
  have "word_count 0 32 = 1" by (simp add: word_count_def ceil_div32_def)
  then have "length (ToBytes (New 0 32 1)) = 4 \<and> unat (m (New 0 32 1)) div 4 = 8"
    by (simp add: length_ToBytes New_sel)
  then show ?thesis by (simp add: length_ToBytes New_big)
qed

text \<open>
  Claim C3, amended. For a filter that a program holds, \<open>ToBytes\<close> returns four
  bytes for every word; this is the bit count divided by 8 when the filter has
  fewer than \<open>2^27\<close> words, that is when the bit count has not wrapped around
  \<open>2^32\<close>.
\<close>

theorem ToBytes_length:
  assumes "reachable bf"
  shows "length (ToBytes bf) = 4 * length (buckets bf)
         \<and> (length (buckets bf) < 134217728 \<longrightarrow> length (ToBytes bf) = unat (m bf) div 8)"
proof -
  have "length (ToBytes bf) = unat (m bf) div 8" if l: "length (buckets bf) < 134217728"
  proof -
    from l have "length (buckets bf) * 32 mod 4294967296 = length (buckets bf) * 32"
      by simp
    with assms have "unat (m bf) = length (buckets bf) * 32"
      using reachable_wrapped [of bf] by (simp add: bit_count_wrapped_def)
    then show ?thesis by (simp add: length_ToBytes)
  qed
  then show ?thesis by (simp add: length_ToBytes)
qed

theorem ToBytes_length_witness:
  "reachable (New 0 33 3)
   \<and> length (buckets (New 0 33 3)) < 134217728
   \<and> length (ToBytes (New 0 33 3)) = 4 * length (buckets (New 0 33 3))
   \<and> length (ToBytes (New 0 33 3)) = unat (m (New 0 33 3)) div 8"
proof -
  have r: "reachable (New 0 33 3)" by (rule reachable_New)
  have l: "length (buckets (New 0 33 3)) < 134217728" by (simp add: New_33)
  from ToBytes_length [OF r] r l show ?thesis by blast
qed

text \<open>
  Claim C5, as stated: every filter of either constructor has a positive bit
  count. \<open>New(0, 1)\<close> returns a filter of no words with bit count 0, and so does
  \<open>NewFromBytes\<close> on three bytes; \<open>New(4294967296, 1)\<close> returns \<open>2^27\<close> words with
  bit count 0.
\<close>

theorem bit_count_positive_counterexample:
  "\<not> bit_count_ok (New 0 0 1) \<and> m (New 0 0 1) = 0 \<and> buckets (New 0 0 1) = []
   \<and> NewFromBytes [1, 2, 3] 1 = Inr \<lparr> m = 0, k = 1, buckets = [] \<rparr>
   \<and> m (New 0 4294967296 1) = 0 \<and> length (buckets (New 0 4294967296 1)) = 134217728"
  by (simp add: New_0 New_big bit_count_ok_def NewFromBytes_def)

text \<open>
  Claim C5, amended. \<open>New(m0, k0)\<close> with \<open>1 \<le> m0 \<le> 2^32 - 32\<close> and
  \<open>NewFromBytes\<close> on at least 4 and fewer than \<open>2^29\<close> bytes return a filter
  whose bit count is a positive multiple of 32 and is the number of words times
  32; \<open>Add\<close> and \<open>AddInt\<close>, the operations that change a filter, keep the bit
  count, the hash count and the number of words, and so this invariant. For
  all arguments of the constructors, and after every \<open>Add\<close>, the bit count is a
  multiple of 32 and is the number of words times 32 modulo \<open>2^32\<close>.
\<close>

theorem bit_count_invariant:
  "(1 \<le> m0 \<and> m0 \<le> 4294967264 \<longrightarrow> bit_count_ok (New u m0 k0))
   \<and> (4 \<le> length bb \<and> length bb < 536870912 \<longrightarrow>
        (\<exists>bf. NewFromBytes bb k0 = Inr bf \<and> bit_count_ok bf))
   \<and> (bit_count_ok bf \<longrightarrow> bit_count_ok (fst (Add bf v)) \<and> bit_count_ok (fst (AddInt bf i)))
   \<and> m (fst (Add bf v)) = m bf \<and> k (fst (Add bf v)) = k bf
   \<and> length (buckets (fst (Add bf v))) = length (buckets bf)
   \<and> (reachable bf \<longrightarrow> unat (m bf) mod 32 = 0
        \<and> unat (m bf) = (length (buckets bf) * 32) mod 2 ^ 32)"
proof -
  have a: "bit_count_ok (fst (Add bf w))" if "bit_count_ok bf" for w
    using that unfolding bit_count_ok_def Add_sel .
  have p1: "1 \<le> m0 \<and> m0 \<le> 4294967264 \<longrightarrow> bit_count_ok (New u m0 k0)"
    by (simp add: New_in_range)
  have p2: "4 \<le> length bb \<and> length bb < 536870912 \<longrightarrow>
        (\<exists>bf. NewFromBytes bb k0 = Inr bf \<and> bit_count_ok bf)"
    by (simp add: NewFromBytes_in_range)
  have p3: "bit_count_ok bf \<longrightarrow>
        bit_count_ok (fst (Add bf v)) \<and> bit_count_ok (fst (AddInt bf i))"
    using a by (simp add: AddInt_def)
  have p4: "m (fst (Add bf v)) = m bf \<and> k (fst (Add bf v)) = k bf
        \<and> length (buckets (fst (Add bf v))) = length (buckets bf)"
    by (simp add: Add_sel)
  have p5: "reachable bf \<longrightarrow> unat (m bf) mod 32 = 0
        \<and> unat (m bf) = (length (buckets bf) * 32) mod 2 ^ 32"
  proof
    assume "reachable bf"
    then have w: "bit_count_wrapped bf" by (rule reachable_wrapped)
    from w have "unat (m bf) mod 32 = 0" by (rule wrapped_mod32)
    moreover from w have "unat (m bf) = (length (buckets bf) * 32) mod 2 ^ 32"
      unfolding bit_count_wrapped_def .
    ultimately show "unat (m bf) mod 32 = 0
        \<and> unat (m bf) = (length (buckets bf) * 32) mod 2 ^ 32" ..
  qed
  from p1 p2 p3 p4 p5 show ?thesis by blast
qed

theorem bit_count_invariant_witness:
  "bit_count_ok (New 0 33 3)
   \<and> (\<exists>bf. NewFromBytes [1, 2, 3, 4, 5] 3 = Inr bf \<and> bit_count_ok bf)
   \<and> bit_count_ok (fst (Add (New 0 33 3) [1, 2, 3]))
   \<and> bit_count_ok (fst (AddInt (New 0 33 3) 7))
   \<and> reachable (New 0 33 3)
   \<and> unat (m (New 0 33 3)) mod 32 = 0
   \<and> unat (m (New 0 33 3)) = (length (buckets (New 0 33 3)) * 32) mod 2 ^ 32"
proof -
  have r: "reachable (New 0 33 3)" by (rule reachable_New)
  have a: "(1::int) \<le> 33 \<and> (33::int) \<le> 4294967264" by simp
  have b: "4 \<le> length [1, 2, 3, 4, 5 :: byte] \<and> length [1, 2, 3, 4, 5 :: byte] < 536870912"
    by simp
  have c: "bit_count_ok (New 0 33 3)"
    using bit_count_invariant [where ?m0.0 = 33 and u = 0 and ?k0.0 = 3] a by blast
  from bit_count_invariant [where ?m0.0 = 33 and u = 0 and ?k0.0 = 3
      and bb = "[1, 2, 3, 4, 5]" and bf = "New 0 33 3" and v = "[1, 2, 3]" and i = 7] a b c r
  show ?thesis by blast
qed

text \<open>
  Claim C6. For every filter and every byte sequence \<open>v\<close>, a second \<open>Add v\<close>
  right after the first leaves the filter, and so its word sequence, as the
  first left it (and ends the same way); and \<open>Add\<close> keeps the number of words
  and every bit that was 1, also when it panics.
\<close>

theorem Add_idempotent_monotone:
  "Add (fst (Add bf v)) v = Add bf v
   \<and> buckets (fst (Add (fst (Add bf v)) v)) = buckets (fst (Add bf v))
   \<and> length (buckets (fst (Add bf v))) = length (buckets bf)
   \<and> (\<forall>i < length (buckets bf). \<forall>n.
         bit (buckets bf ! i) n \<longrightarrow> bit (buckets (fst (Add bf v)) ! i) n)"
proof (intro conjI allI impI)
  show twice: "Add (fst (Add bf v)) v = Add bf v" by (rule Add_idem)
  show "buckets (fst (Add (fst (Add bf v)) v)) = buckets (fst (Add bf v))"
    by (simp only: twice)
  show "length (buckets (fst (Add bf v))) = length (buckets bf)"
    by (rule Add_sel)
next
  fix i n
  assume "i < length (buckets bf)" and "bit (buckets bf ! i) n"
  then show "bit (buckets (fst (Add bf v)) ! i) n" by (rule Add_bit_mono)
qed

theorem Add_idempotent_monotone_witness:
  "(0::nat) < length (buckets (fst (Add (New 0 33 3) [1, 2, 3])))
   \<and> bit (buckets (fst (Add (New 0 33 3) [1, 2, 3])) ! 0) 7
   \<and> bit (buckets (fst (Add (fst (Add (New 0 33 3) [1, 2, 3])) [4, 5])) ! 0) 7
   \<and> Add (fst (Add (New 0 33 3) [1, 2, 3])) [1, 2, 3] = Add (New 0 33 3) [1, 2, 3]"
proof -
  let ?bf = "fst (Add (New 0 33 3) [1, 2, 3])"
  have l: "0 < length (buckets ?bf)" by (simp add: Add_123)
  have b: "bit (buckets ?bf ! 0) 7" by (simp add: Add_123)
  from Add_idempotent_monotone [of ?bf "[4, 5]"] l b
  have "bit (buckets (fst (Add ?bf [4, 5])) ! 0) 7" by blast
  with l b Add_idempotent_monotone [of "New 0 33 3" "[1, 2, 3]"] show ?thesis by blast
qed

text \<open>
  Claim C7. \<open>New(33, k)\<close> has bit count 64, \<open>New(32, k)\<close> and \<open>New(1, k)\<close> have
  bit count 32, for every hash count \<open>k\<close>; and for every requested bit count
  from 0 to \<open>2^32 - 32\<close> the bit count of the filter is the least multiple of 32
  that is not below it.
\<close>

theorem New_rounds_up:
  "m (New u 33 k0) = 64 \<and> m (New u 32 k0) = 32 \<and> m (New u 1 k0) = 32
   \<and> (0 \<le> m0 \<and> m0 \<le> 4294967264 \<longrightarrow>
        unat (m (New u m0 k0)) mod 32 = 0
        \<and> m0 \<le> int (unat (m (New u m0 k0)))
        \<and> int (unat (m (New u m0 k0))) < m0 + 32)"
proof -
  have "unat (m (New u m0 k0)) mod 32 = 0
        \<and> m0 \<le> int (unat (m (New u m0 k0)))
        \<and> int (unat (m (New u m0 k0))) < m0 + 32"
    if r: "0 \<le> m0" "m0 \<le> 4294967264"
  proof -
    let ?n = "unat (word_count u m0)"
    have n: "int ?n = ceil_div32 m0" and u: "ceil_div32 m0 < 134217728"
      using word_count_in_range [OF r] by simp_all
    then have "?n < 134217728" by linarith
    then have "unat (word_count u m0 * 32) = ?n * 32"
      by (simp add: unat_word_ariths)
    then have e: "int (unat (m (New u m0 k0))) = 32 * ceil_div32 m0"
      using n by (simp add: New_sel)
    then have "unat (m (New u m0 k0)) mod 32 = 0"
      using \<open>unat (word_count u m0 * 32) = ?n * 32\<close> by (simp add: New_sel)
    with e ceil_div32_bounds [of m0] show ?thesis by simp
  qed
  then show ?thesis
    by (simp add: New_sel word_count_def ceil_div32_def)
qed

theorem New_rounds_up_witness:
  "(0::int) \<le> 100 \<and> (100::int) \<le> 4294967264
   \<and> unat (m (New 0 100 3)) mod 32 = 0
   \<and> 100 \<le> int (unat (m (New 0 100 3)))
   \<and> int (unat (m (New 0 100 3))) < 100 + 32
   \<and> m (New 0 100 3) = 128"
proof -
  have a: "(0::int) \<le> 100 \<and> (100::int) \<le> 4294967264" by simp
  have "m (New 0 100 3) = 128" by (simp add: New_sel word_count_def ceil_div32_def)
  with New_rounds_up [where u = 0 and ?k0.0 = 3 and ?m0.0 = 100] a show ?thesis by blast
qed

text \<open>
  Claim C9. For every byte sequence, of a length that is a multiple of 4 or
  not, \<open>NewFromBytes\<close> returns a filter and does not panic. The filter has
  \<open>len(bb) / 4\<close> words (integer division), and they are the words of the bytes
  before the trailing partial word: \<open>ToBytes\<close> gives back these bytes, the
  \<open>len(bb) mod 4\<close> last bytes are dropped, and the byte sequence without them
  gives the same filter.
\<close>

theorem NewFromBytes_truncates:
  "\<exists>bf. NewFromBytes bb k0 = Inr bf
      \<and> k bf = k0
      \<and> length (buckets bf) = length bb div 4
      \<and> bb = ToBytes bf @ drop (4 * (length bb div 4)) bb
      \<and> length (drop (4 * (length bb div 4)) bb) = length bb mod 4
      \<and> NewFromBytes (ToBytes bf) k0 = Inr bf"
proof -
  from NewFromBytes_total [of bb k0] obtain ws where
    ws: "NewFromBytes bb k0 = Inr \<lparr> m = of_nat (length ws * 32), k = k0, buckets = ws \<rparr>"
        "length ws = length bb div 4"
        "concat (map BigEndian_PutUint32 ws) = take (4 * (length bb div 4)) bb"
    by blast
  let ?bf = "\<lparr> m = of_nat (length ws * 32), k = k0, buckets = ws \<rparr>"
  have t: "ToBytes ?bf = take (4 * (length bb div 4)) bb"
    using ws(3) by (simp add: ToBytes_concat)
  have "NewFromBytes (ToBytes ?bf) k0 = Inr ?bf"
    by (simp only: ToBytes_concat NewFromBytes_encode BloomFilter.simps)
  moreover have "length (drop (4 * (length bb div 4)) bb) = length bb mod 4"
    by (simp add: minus_mult_div_eq_mod mult.commute)
  moreover have "bb = ToBytes ?bf @ drop (4 * (length bb div 4)) bb"
    by (simp only: t append_take_drop_id)
  ultimately show ?thesis using ws(1,2) by simp
qed

section \<open>The positions, and the estimated parameters\<close>

lemma spec_positions_numeral:
  "spec_positions (numeral n) x hb mm =
     x # spec_positions (pred_numeral n) ((x + hb) mod mm) hb mm"
  by (simp add: numeral_eq_Suc [of n])

lemma locations_loop_numeral:
  "locations_loop (numeral n) x b mm =
     x # locations_loop (pred_numeral n) ((x + b) mod mm) b mm"
  by (simp add: numeral_eq_Suc [of n])

lemma New_192: "m (New 0 192 2) = 192" "k (New 0 192 2) = 2"
  by (simp_all add: New_sel word_count_def ceil_div32_def)

lemma hashA_example: "fnv_1a [10, 249, 157] 0 = 1797493001"
  by code_simp

lemma hashB_example: "fnv_1a [10, 249, 157] 1576284489 = 4294967199"
  by code_simp

lemma unat_locations_loop:
  "mm \<noteq> 0 \<Longrightarrow>
   map unat (locations_loop n x b mm) = wrap_positions n (unat x) (unat b) (unat mm)"
proof (induction n arbitrary: x)
  case 0
  then show ?case by simp
next
  case (Suc n)
  have "unat ((x + b) mod mm) = ((unat x + unat b) mod 2 ^ 32) mod unat mm"
    by (simp add: unat_mod unat_word_ariths)
  with Suc show ?case by simp
qed

lemma wrap_positions_spec:
  "2 ^ 32 mod mm = 0 \<Longrightarrow> wrap_positions n x hb mm = spec_positions n x hb mm"
proof (induction n arbitrary: x)
  case 0
  then show ?case by simp
next
  case (Suc n)
  from Suc.prems have "mm dvd 2 ^ 32" by (simp add: dvd_eq_mod_eq_0)
  then have "((x + hb) mod 2 ^ 32) mod mm = (x + hb) mod mm"
    by (rule mod_mod_cancel)
  with Suc show ?case by simp
qed

text \<open>
  Claim C4, as stated: the positions are \<open>x\<^sub>0 = hashA mod m\<close> and
  \<open>x\<^sub>i\<^sub>+\<^sub>1 = (x\<^sub>i + hashB) mod m\<close>, the remainder of the sum of the two numbers.
  For the filter of \<open>New(192, 2)\<close> and the bytes 10, 249, 157 the digests are
  \<open>hashA = 1797493001\<close> and \<open>hashB = 4294967199\<close>: \<open>x\<^sub>0 = 137\<close>, and the sum
  \<open>137 + hashB\<close> is \<open>2^32 + 40\<close>. \<open>locations\<close> adds in \<open>uint32\<close>, gets 40 and
  emits 40; the remainder of the sum modulo 192 is 104.
\<close>

theorem locations_counterexample:
  "locations (New 0 192 2) [10, 249, 157] = Inr [137, 40]
   \<and> spec_locations (New 0 192 2) [10, 249, 157] = [137, 104]"
  by (simp add: locations_def spec_locations_def New_192 hashA_example hashB_example
        locations_loop_numeral spec_positions_numeral Let_def)

text \<open>
  Claim C4, amended. For a positive bit count \<open>m\<close> and a positive hash count
  \<open>k\<close>, \<open>locations\<close> returns \<open>k\<close> positions, \<open>x\<^sub>0 = hashA mod m\<close> and
  \<open>x\<^sub>i\<^sub>+\<^sub>1 = ((x\<^sub>i + hashB) mod 2^32) mod m\<close>: the sum wraps around in \<open>uint32\<close>
  before the remainder is taken. Every position is below \<open>m\<close>. When \<open>m\<close>
  divides \<open>2^32\<close> the positions are those of the claim as stated.
\<close>

theorem locations_wrap:
  assumes "0 < m bf" and "0 < k bf"
  shows "\<exists>ls. locations bf v = Inr ls
           \<and> length ls = nat (k bf)
           \<and> map unat ls = wrap_locations bf v
           \<and> (\<forall>l \<in> set ls. l < m bf)
           \<and> (2 ^ 32 mod unat (m bf) = 0 \<longrightarrow> map unat ls = spec_locations bf v)"
proof -
  let ?ls = "locations_loop (nat (k bf)) (fnv_1a v 0 mod m bf) (fnv_1a v 1576284489) (m bf)"
  from assms have z: "m bf \<noteq> 0" and kk: "0 \<le> k bf" by (simp_all add: word_neq_0_conv)
  have l: "locations bf v = Inr ?ls" by (rule locations_Inr [OF kk z])
  have u: "map unat ?ls = wrap_locations bf v"
    using z by (simp add: unat_locations_loop wrap_locations_def unat_mod Let_def)
  have b: "\<forall>l \<in> set ?ls. l < m bf"
    using l by (blast intro: locations_bound)
  have s: "map unat ?ls = spec_locations bf v" if "2 ^ 32 mod unat (m bf) = 0"
    using u that by (simp add: wrap_locations_def spec_locations_def wrap_positions_spec Let_def)
  from l u b s show ?thesis by (simp add: locations_loop_length)
qed

theorem locations_wrap_witness:
  "0 < m (New 0 33 3) \<and> 0 < k (New 0 33 3)
   \<and> 2 ^ 32 mod unat (m (New 0 33 3)) = 0
   \<and> (\<exists>ls. locations (New 0 33 3) [1, 2, 3] = Inr ls
         \<and> length ls = nat (k (New 0 33 3))
         \<and> map unat ls = wrap_locations (New 0 33 3) [1, 2, 3]
         \<and> (\<forall>l \<in> set ls. l < m (New 0 33 3))
         \<and> map unat ls = spec_locations (New 0 33 3) [1, 2, 3])"
proof -
  have a: "0 < m (New 0 33 3)" and b: "0 < k (New 0 33 3)"
    and c: "2 ^ 32 mod unat (m (New 0 33 3)) = 0"
    by (simp_all add: New_33)
  from locations_wrap [OF a b, of "[1, 2, 3]"] a b c show ?thesis by blast
qed





section \<open>The dead branch of the hash function\<close>

lemma fnv_step_simplified_eq: "fnv_step a b = fnv_step_simplified a b"
  by (simp add: fnv_step_def fnv_step_simplified_def ucast_byte_high)

lemma fnv_loop_simplified_eq: "fnv_loop a v = fnv_loop_simplified a v"
  by (induction v arbitrary: a) (simp_all add: fnv_step_simplified_eq)

text \<open>
  Claim C10. For every byte sequence \<open>v\<close> and every seed, the hash function of
  the source, with its branch on \<open>d \<noteq> 0\<close>, returns the same digest as the hash
  function without that branch: \<open>d = c AND 0xff00\<close> is 0 for every byte, so the
  branch is never taken.
\<close>

theorem fnv_1a_dead_branch:
  "fnv_1a v seed = fnv_1a_simplified v seed
   \<and> (ucast (b :: byte) :: uint32) AND 0xff00 = 0"
proof
  have "fnv_loop (word_of_int (2166136261 XOR seed)) v
        = fnv_loop_simplified (word_of_int (2166136261 XOR seed)) v"
    by (rule fnv_loop_simplified_eq)
  then show "fnv_1a v seed = fnv_1a_simplified v seed"
    by (simp only: fnv_1a_def fnv_1a_simplified_def)
  show "(ucast b :: uint32) AND 0xff00 = 0" by (rule ucast_byte_high)
qed

end
